theory Spec2Isabelle
  imports Complex_Main "HOL-Library.Sublist"
begin

section \<open>Characters and character classes\<close>

text \<open>
  A Python \<open>str\<close> is modelled as a \<open>string\<close>; a \<open>char\<close> stands for the code point
  of the same number (0 to 255). The classes below are the ones Python 3 uses for
  \<open>str\<close> patterns and \<open>str.isupper\<close>, restricted to these code points.
\<close>

definition is_digit :: "char \<Rightarrow> bool" where
  \<comment> \<open>the regular-expression class \<open>\d\<close>\<close>
  "is_digit c = (let n = (of_char c :: nat) in 48 \<le> n \<and> n \<le> 57)"

definition is_space :: "char \<Rightarrow> bool" where
  \<comment> \<open>the regular-expression class \<open>\s\<close>\<close>
  "is_space c = (let n = (of_char c :: nat) in
     (9 \<le> n \<and> n \<le> 13) \<or> (28 \<le> n \<and> n \<le> 32) \<or> n = 133 \<or> n = 160)"

definition is_word :: "char \<Rightarrow> bool" where
  \<comment> \<open>the regular-expression class \<open>\w\<close>\<close>
  "is_word c = (let n = (of_char c :: nat) in
     (48 \<le> n \<and> n \<le> 57) \<or> (65 \<le> n \<and> n \<le> 90) \<or> n = 95 \<or> (97 \<le> n \<and> n \<le> 122) \<or>
     n = 170 \<or> n = 178 \<or> n = 179 \<or> n = 181 \<or> n = 185 \<or> n = 186 \<or>
     (188 \<le> n \<and> n \<le> 190) \<or> (192 \<le> n \<and> n \<le> 214) \<or> (216 \<le> n \<and> n \<le> 246) \<or>
     248 \<le> n)"

definition isupper :: "char \<Rightarrow> bool" where
  \<comment> \<open>\<open>str.isupper\<close> on a one-character string\<close>
  "isupper c = (let n = (of_char c :: nat) in
     (65 \<le> n \<and> n \<le> 90) \<or> (192 \<le> n \<and> n \<le> 214) \<or> (216 \<le> n \<and> n \<le> 222))"

definition is_ann_char :: "char \<Rightarrow> bool" where
  \<comment> \<open>the bracket class \<open>[!|?]\<close>: the bar is a member of the class\<close>
  "is_ann_char c = (c = CHR ''!'' \<or> c = CHR ''|'' \<or> c = CHR ''?'')"

fun str_in :: "string \<Rightarrow> string \<Rightarrow> bool" where
  \<comment> \<open>Python's \<open>sub in s\<close> on strings\<close>
  "str_in sub [] = (sub = [])"
| "str_in sub (c # cs) = (prefix sub (c # cs) \<or> str_in sub cs)"


section \<open>Data model\<close>

text \<open>
  A half-move is the Python list \<open>[move, evaluation, annotation]\<close> built by
  \<open>convert_gameplay\<close>; \<open>hm_rest\<close> holds whatever has been appended behind these three
  strings (the remaining-pieces counts). A full move is the list of its half-moves and a
  game the list of its full moves.
\<close>

record halfmove =
  hm_move :: string
  hm_eval :: string
  hm_ann :: string
  hm_rest :: "int list"

type_synonym full_move = "halfmove list"
type_synonym gameplay = "full_move list"

datatype error = IndexError | ValueError | TypeError | KeyError


section \<open>\<open>PreProcessing.convert_gameplay\<close>\<close>

subsection \<open>The regular expressions\<close>

definition match_move_number :: "string \<Rightarrow> nat option" where
  \<comment> \<open>\<open>\d+\.\s\<close> matched at the start of the string: the length of the match\<close>
  "match_move_number s =
     (let ds = takeWhile is_digit s in
      case dropWhile is_digit s of
        c1 # c2 # _ \<Rightarrow>
          if ds \<noteq> [] \<and> c1 = CHR ''.'' \<and> is_space c2 then Some (length ds + 2) else None
      | _ \<Rightarrow> None)"

definition match_black_marker :: "string \<Rightarrow> nat option" where
  \<comment> \<open>\<open>\s\d+\.\.\.\s\<close> matched at the start of the string: the length of the match\<close>
  "match_black_marker s =
     (case s of
        [] \<Rightarrow> None
      | w # r \<Rightarrow>
          (let ds = takeWhile is_digit r in
           case dropWhile is_digit r of
             d1 # d2 # d3 # w2 # _ \<Rightarrow>
               if is_space w \<and> ds \<noteq> [] \<and> d1 = CHR ''.'' \<and> d2 = CHR ''.'' \<and> d3 = CHR ''.''
                  \<and> is_space w2
               then Some (length ds + 5) else None
           | _ \<Rightarrow> None))"

fun re_split_from :: "(string \<Rightarrow> nat option) \<Rightarrow> nat \<Rightarrow> string \<Rightarrow> string \<Rightarrow> string list" where
  \<comment> \<open>\<open>re.split\<close> for a pattern without groups that matches no empty string: \<open>k\<close> counts
      the characters of the current match still to skip, \<open>cur\<close> is the piece being read\<close>
  "re_split_from m k cur [] = [cur]"
| "re_split_from m (Suc k) cur (c # cs) = re_split_from m k cur cs"
| "re_split_from m 0 cur (c # cs) =
     (case m (c # cs) of
        Some n \<Rightarrow> cur # re_split_from m (n - 1) [] cs
      | None \<Rightarrow> re_split_from m 0 (cur @ [c]) cs)"

definition re_split :: "(string \<Rightarrow> nat option) \<Rightarrow> string \<Rightarrow> string list" where
  "re_split m s = re_split_from m 0 [] s"

definition match_mate :: "string \<Rightarrow> string option" where
  \<comment> \<open>\<open>#\-?\d+\<close> matched at the start of the string: the matched text\<close>
  "match_mate s =
     (case s of
        [] \<Rightarrow> None
      | c # r \<Rightarrow>
          if c \<noteq> CHR ''#'' then None
          else (case r of
                  [] \<Rightarrow> None
                | d # r' \<Rightarrow>
                    if d = CHR ''-''
                    then (if takeWhile is_digit r' \<noteq> []
                          then Some (CHR ''#'' # CHR ''-'' # takeWhile is_digit r') else None)
                    else (if takeWhile is_digit r \<noteq> []
                          then Some (CHR ''#'' # takeWhile is_digit r) else None)))"

definition match_decimal_unsigned :: "string \<Rightarrow> string option" where
  \<comment> \<open>\<open>\d+\.\d+\<close> matched at the start of the string\<close>
  "match_decimal_unsigned s =
     (let ds = takeWhile is_digit s in
      case dropWhile is_digit s of
        [] \<Rightarrow> None
      | p # r \<Rightarrow>
          if ds \<noteq> [] \<and> p = CHR ''.'' \<and> takeWhile is_digit r \<noteq> []
          then Some (ds @ CHR ''.'' # takeWhile is_digit r) else None)"

definition match_decimal :: "string \<Rightarrow> string option" where
  \<comment> \<open>\<open>\-?\d+\.\d+\<close> matched at the start of the string\<close>
  "match_decimal s =
     (case s of
        [] \<Rightarrow> None
      | c # r \<Rightarrow>
          if c = CHR ''-''
          then map_option ((#) CHR ''-'') (match_decimal_unsigned r)
          else match_decimal_unsigned s)"

fun find_eval :: "string \<Rightarrow> string" where
  \<comment> \<open>the first element of \<open>re.findall('#\-?\d+|\-?\d+\.\d+', half_move)\<close>, or the
      empty string when there is no match\<close>
  "find_eval [] = []"
| "find_eval (c # cs) =
     (case match_mate (c # cs) of
        Some m \<Rightarrow> m
      | None \<Rightarrow> (case match_decimal (c # cs) of Some m \<Rightarrow> m | None \<Rightarrow> find_eval cs))"

definition find_ann :: "string \<Rightarrow> string" where
  \<comment> \<open>the first non-empty element of \<open>re.findall('[!|?]*', token)\<close>, or the empty string\<close>
  "find_ann t = takeWhile is_ann_char (dropWhile (\<lambda>c. \<not> is_ann_char c) t)"

definition keep_move_chars :: "string \<Rightarrow> string" where
  \<comment> \<open>\<open>"".join(re.findall('\w|\-', token))\<close>\<close>
  "keep_move_chars t = filter (\<lambda>c. is_word c \<or> c = CHR ''-'') t"

subsection \<open>The tokenizer\<close>

definition convert_half_move :: "string \<Rightarrow> halfmove" where
  \<comment> \<open>the body of the inner loop; \<open>half_move.split(" ")[0]\<close> is the text before the first
      blank\<close>
  "convert_half_move half_move =
     (let token = takeWhile (\<lambda>c. c \<noteq> CHR '' '') half_move in
      \<lparr> hm_move = keep_move_chars token,
        hm_eval = find_eval half_move,
        hm_ann = find_ann token,
        hm_rest = [] \<rparr>)"

definition convert_gameplay :: "string \<Rightarrow> gameplay" where
  "convert_gameplay gameplay_str =
     map (\<lambda>full_move. map convert_half_move (re_split match_black_marker full_move))
         (tl (re_split match_move_number gameplay_str))"


section \<open>\<open>PreProcessing.add_remaining_pieces\<close>\<close>

definition append_rest :: "halfmove \<Rightarrow> int \<Rightarrow> halfmove" where
  \<comment> \<open>\<open>half_move.append(v)\<close>\<close>
  "append_rest h v = h\<lparr>hm_rest := hm_rest h @ [v]\<rparr>"

definition captures :: "halfmove \<Rightarrow> bool" where
  \<comment> \<open>\<open>"x" in half_move[0]\<close>\<close>
  "captures h = str_in ''x'' (hm_move h)"

fun remaining_loop :: "int \<Rightarrow> int \<Rightarrow> gameplay \<Rightarrow> error + gameplay" where
  \<comment> \<open>the \<open>for\<close> loop, from full move \<open>i\<close> on, with the two counters as they are when
      iteration \<open>i\<close> starts; indexing an empty list raises \<open>IndexError\<close>\<close>
  "remaining_loop num_white_pieces num_black_pieces [] = Inr []"
| "remaining_loop num_white_pieces num_black_pieces (move # rest) =
     (case move of
        [] \<Rightarrow> Inl IndexError
      | white_move # others \<Rightarrow>
          (let nb = (if captures white_move then num_black_pieces - 1 else num_black_pieces);
               nw = (case others of
                       [black_move] \<Rightarrow>
                         if captures black_move then num_white_pieces - 1 else num_white_pieces
                     | _ \<Rightarrow> num_white_pieces);
               move' = (case others of
                          [black_move] \<Rightarrow> [white_move, append_rest black_move nb]
                        | _ \<Rightarrow> move)
           in case rest of
                [] \<Rightarrow> Inr [move']
              | next_move # rest' \<Rightarrow>
                  (case next_move of
                     [] \<Rightarrow> Inl IndexError
                   | w # bs \<Rightarrow>
                       (case remaining_loop nw nb ((append_rest w nw # bs) # rest') of
                          Inl e \<Rightarrow> Inl e
                        | Inr r \<Rightarrow> Inr (move' # r)))))"

definition add_remaining_pieces :: "gameplay \<Rightarrow> error + gameplay" where
  "add_remaining_pieces gameplay_list =
     (case remaining_loop 16 16 gameplay_list of
        Inl e \<Rightarrow> Inl e
      | Inr g \<Rightarrow>
          (case g of
             [] \<Rightarrow> Inl IndexError
           | m # ms \<Rightarrow>
               (case m of
                  [] \<Rightarrow> Inl IndexError
                | h # hs \<Rightarrow> Inr ((append_rest h 16 # hs) # ms))))"


section \<open>\<open>PreProcessing.find_blunder\<close>\<close>

subsection \<open>Evaluation values\<close>

text \<open>
  A Python \<open>float\<close> is modelled as an exact rational or one of the three special values;
  rounding is not modelled. After normalization an evaluation is either a float or still
  the empty string it was read as.
\<close>

datatype pyfloat = Fin rat | PInf | MInf | NaN

datatype evalv = EmptyStr | Flt pyfloat

fun fsub :: "pyfloat \<Rightarrow> pyfloat \<Rightarrow> pyfloat" where
  "fsub NaN _ = NaN"
| "fsub _ NaN = NaN"
| "fsub (Fin a) (Fin b) = Fin (a - b)"
| "fsub (Fin a) PInf = MInf"
| "fsub (Fin a) MInf = PInf"
| "fsub PInf PInf = NaN"
| "fsub PInf _ = PInf"
| "fsub MInf MInf = NaN"
| "fsub MInf _ = MInf"

fun fneg :: "pyfloat \<Rightarrow> pyfloat" where
  "fneg (Fin a) = Fin (- a)"
| "fneg PInf = MInf"
| "fneg MInf = PInf"
| "fneg NaN = NaN"

fun py_sub :: "evalv \<Rightarrow> evalv \<Rightarrow> error + pyfloat" where
  \<comment> \<open>the operator \<open>-\<close>: a string operand raises \<open>TypeError\<close>\<close>
  "py_sub (Flt a) (Flt b) = Inr (fsub a b)"
| "py_sub _ _ = Inl TypeError"

text \<open>
  The builtin \<open>float\<close> is a parameter \<open>flt\<close> of the classifier. \<open>py_float\<close> is that
  builtin on plain decimal literals (sign, digits, point, digits), the only spellings used
  where the classifier is evaluated on concrete games.
\<close>

definition digits_val :: "string \<Rightarrow> nat" where
  "digits_val ds = foldl (\<lambda>a c. 10 * a + (of_char c - 48)) 0 ds"

definition py_float_unsigned :: "string \<Rightarrow> error + pyfloat" where
  "py_float_unsigned s =
     (let ip = takeWhile is_digit s in
      case dropWhile is_digit s of
        [] \<Rightarrow> if ip \<noteq> [] then Inr (Fin (of_nat (digits_val ip))) else Inl ValueError
      | p # fr \<Rightarrow>
          if p = CHR ''.'' \<and> list_all is_digit fr \<and> (ip \<noteq> [] \<or> fr \<noteq> [])
          then Inr (Fin (of_nat (digits_val ip) + of_nat (digits_val fr) / 10 ^ length fr))
          else Inl ValueError)"

definition py_float :: "string \<Rightarrow> error + pyfloat" where
  "py_float s =
     (case s of
        [] \<Rightarrow> Inl ValueError
      | c # r \<Rightarrow>
          if c = CHR ''-'' then map_sum id fneg (py_float_unsigned r)
          else if c = CHR ''+'' then py_float_unsigned r
          else py_float_unsigned s)"

subsection \<open>Normalization of the two evaluations of a full move\<close>

definition normalize_white :: "(string \<Rightarrow> error + pyfloat) \<Rightarrow> string \<Rightarrow> error + evalv" where
  "normalize_white flt eval_w =
     (if str_in ''-#'' eval_w then Inr (Flt MInf)
      else if str_in ''#'' eval_w then Inr (Flt PInf)
      else if eval_w \<noteq> [] then map_sum id Flt (flt eval_w)
      else Inr EmptyStr)"

definition normalize_black ::
  "(string \<Rightarrow> error + pyfloat) \<Rightarrow> evalv \<Rightarrow> string \<Rightarrow> error + evalv" where
  \<comment> \<open>\<open>eval_w\<close> is White's evaluation as \<open>normalize_white\<close> left it\<close>
  "normalize_black flt eval_w eval_b =
     (if str_in ''-#'' eval_b then Inr (Flt PInf)
      else if str_in ''#'' eval_b then Inr (Flt MInf)
      else if eval_b \<noteq> [] then map_sum id Flt (flt eval_b)
      else Inr eval_w)"

subsection \<open>The classifier\<close>

record blunder =
  bl_num :: nat
  bl_player :: string
  bl_move :: string
  bl_ann :: string
  bl_diff :: pyfloat

definition is_blunder_ann :: "string \<Rightarrow> bool" where
  "is_blunder_ann ann = (ann = ''?'' \<or> ann = ''??'' \<or> ann = ''?!'')"

definition white_blunder ::
  "blunder list \<Rightarrow> evalv \<Rightarrow> nat \<Rightarrow> halfmove \<Rightarrow> evalv \<Rightarrow> error + blunder list" where
  "white_blunder blunders eval_b_before i hw eval_w =
     (if is_blunder_ann (hm_ann hw)
      then (case py_sub eval_b_before eval_w of
              Inl e \<Rightarrow> Inl e
            | Inr d \<Rightarrow>
                Inr (blunders @ [\<lparr> bl_num = i + 1, bl_player = ''w'', bl_move = hm_move hw,
                                   bl_ann = hm_ann hw, bl_diff = d \<rparr>]))
      else Inr blunders)"

definition black_blunder ::
  "blunder list \<Rightarrow> nat \<Rightarrow> halfmove \<Rightarrow> evalv \<Rightarrow> evalv \<Rightarrow> error + blunder list" where
  "black_blunder blunders i hb eval_w eval_b =
     (if is_blunder_ann (hm_ann hb)
      then (case py_sub eval_w eval_b of
              Inl e \<Rightarrow> Inl e
            | Inr d \<Rightarrow>
                Inr (blunders @ [\<lparr> bl_num = i + 1, bl_player = ''b'', bl_move = hm_move hb,
                                   bl_ann = hm_ann hb, bl_diff = fneg d \<rparr>]))
      else Inr blunders)"

definition blunder_body ::
  "(string \<Rightarrow> error + pyfloat) \<Rightarrow> blunder list \<Rightarrow> evalv \<Rightarrow> nat \<Rightarrow> full_move
     \<Rightarrow> error + (blunder list \<times> evalv)" where
  \<comment> \<open>one iteration behind the \<open>break\<close> test; unpacking needs exactly two half-moves of
      exactly four elements each and raises \<open>ValueError\<close> otherwise\<close>
  "blunder_body flt blunders eval_b_before i move =
     (case move of
        [hw, hb] \<Rightarrow>
          if length (hm_rest hw) \<noteq> 1 \<or> length (hm_rest hb) \<noteq> 1 then Inl ValueError
          else (case normalize_white flt (hm_eval hw) of
                  Inl e \<Rightarrow> Inl e
                | Inr eval_w \<Rightarrow>
                    (case normalize_black flt eval_w (hm_eval hb) of
                       Inl e \<Rightarrow> Inl e
                     | Inr eval_b \<Rightarrow>
                         (case white_blunder blunders eval_b_before i hw eval_w of
                            Inl e \<Rightarrow> Inl e
                          | Inr bl1 \<Rightarrow>
                              (case black_blunder bl1 i hb eval_w eval_b of
                                 Inl e \<Rightarrow> Inl e
                               | Inr bl2 \<Rightarrow> Inr (bl2, eval_b)))))
      | _ \<Rightarrow> Inl ValueError)"

fun blunder_loop ::
  "(string \<Rightarrow> error + pyfloat) \<Rightarrow> blunder list \<Rightarrow> evalv \<Rightarrow> nat \<Rightarrow> gameplay
     \<Rightarrow> error + (blunder list \<times> evalv)" where
  \<comment> \<open>the \<open>for\<close> loop from index \<open>i\<close> on; the result is the loop's state when it ends\<close>
  "blunder_loop flt blunders eval_b_before i [] = Inr (blunders, eval_b_before)"
| "blunder_loop flt blunders eval_b_before i (move # rest) =
     (if length move < 2 then Inr (blunders, eval_b_before)
      else (case blunder_body flt blunders eval_b_before i move of
              Inl e \<Rightarrow> Inl e
            | Inr (blunders', eval_b) \<Rightarrow> blunder_loop flt blunders' eval_b (Suc i) rest))"

definition find_blunder :: "(string \<Rightarrow> error + pyfloat) \<Rightarrow> gameplay \<Rightarrow> error + blunder list" where
  "find_blunder flt gameplay_list =
     map_sum id fst (blunder_loop flt [] (Flt (Fin 0)) 0 gameplay_list)"


section \<open>\<open>PreProcessing.preprocess_gameplay\<close> on one game\<close>



section \<open>Piece and square in \<open>Evaluation.create_blunder_moves_dicts\<close>\<close>

definition strip_promotion :: "string \<Rightarrow> error + string" where
  \<comment> \<open>\<open>if move[-1].isupper() and move[-1] != "O": move = move[:-1]\<close>\<close>
  "strip_promotion move =
     (if move = [] then Inl IndexError
      else if isupper (last move) \<and> last move \<noteq> CHR ''O'' then Inr (butlast move)
      else Inr move)"

definition last_two :: "string \<Rightarrow> string" where
  \<comment> \<open>\<open>move[-2:]\<close>: the whole string when it is shorter than two\<close>
  "last_two move = drop (length move - 2) move"

definition pieces_dict_keys :: "string list" where
  \<comment> \<open>the keys of \<open>pieces_dict\<close>\<close>
  "pieces_dict_keys = [''P'', ''N'', ''B'', ''R'', ''Q'', ''K'']"

definition lookup_piece :: "string \<times> string \<Rightarrow> error + (string \<times> string)" where
  \<comment> \<open>the subscript \<open>[piece]\<close> on a copy of \<open>pieces_dict\<close>, where the resolved move is
      appended: a piece that is no key raises \<open>KeyError\<close>\<close>
  "lookup_piece r = (if fst r \<in> set pieces_dict_keys then Inr r else Inl KeyError)"

definition resolve_blunder_move :: "string \<Rightarrow> error + (string \<times> string)" where
  \<comment> \<open>lines 77 to 94, the blunder loop: the pair \<open>(piece, square)\<close> that is stored\<close>
  "resolve_blunder_move move0 =
     (case strip_promotion move0 of
        Inl e \<Rightarrow> Inl e
      | Inr move \<Rightarrow>
          (case move of
             [] \<Rightarrow> Inl IndexError
           | c # _ \<Rightarrow>
               lookup_piece
                 (if isupper c
                  then (if c = CHR ''O''
                        then (''K'',
                               if str_in ''O-O-O'' move then ''O-O-O''
                               else if str_in ''O-O'' move then ''O-O''
                               else last_two move)
                        else ([c], last_two move))
                  else (''P'', last_two move))))"

definition resolve_half_move :: "halfmove \<Rightarrow> error + (string \<times> string)" where
  \<comment> \<open>lines 107 to 128, the all-moves loop: here \<open>in\<close> tests membership in the list
      \<open>half_move\<close>, whose first element is the stripped move (a count is no string);
      \<open>half_move[3]\<close> is read before the pair is stored\<close>
  "resolve_half_move half_move =
     (case strip_promotion (hm_move half_move) of
        Inl e \<Rightarrow> Inl e
      | Inr move \<Rightarrow>
          (case move of
             [] \<Rightarrow> Inl IndexError
           | c # _ \<Rightarrow>
               if hm_rest half_move = [] then Inl IndexError
               else lookup_piece
                 (if isupper c
                  then (if c = CHR ''O''
                        then (''K'',
                               if ''O-O-O'' \<in> set [move, hm_eval half_move, hm_ann half_move]
                               then ''O-O-O''
                               else if ''O-O'' \<in> set [move, hm_eval half_move, hm_ann half_move]
                               then ''O-O''
                               else last_two move)
                        else ([c], last_two move))
                  else (''P'', last_two move))))"

section \<open>Observations used in the statements\<close>


definition all_digits :: "string \<Rightarrow> bool" where
  "all_digits ds = (ds \<noteq> [] \<and> list_all is_digit ds)"

definition mate_shape :: "string \<Rightarrow> bool" where
  \<comment> \<open>\<open>#\<close>, an optional minus sign, digits\<close>
  "mate_shape e =
     (case e of
        [] \<Rightarrow> False
      | c # r \<Rightarrow>
          c = CHR ''#'' \<and>
          (case r of [] \<Rightarrow> False | d # r' \<Rightarrow> if d = CHR ''-'' then all_digits r' else all_digits r))"

definition unsigned_decimal_shape :: "string \<Rightarrow> bool" where
  \<comment> \<open>digits, a point, digits\<close>
  "unsigned_decimal_shape u =
     (all_digits (takeWhile (\<lambda>c. c \<noteq> CHR ''.'') u) \<and>
      (case dropWhile (\<lambda>c. c \<noteq> CHR ''.'') u of [] \<Rightarrow> False | _ # fr \<Rightarrow> all_digits fr))"

definition decimal_shape :: "string \<Rightarrow> bool" where
  \<comment> \<open>an optional minus sign, digits, a point, digits\<close>
  "decimal_shape e =
     (case e of
        [] \<Rightarrow> False
      | c # r \<Rightarrow> if c = CHR ''-'' then unsigned_decimal_shape r else unsigned_decimal_shape e)"


definition emitted :: "nat \<Rightarrow> string \<Rightarrow> halfmove \<Rightarrow> error + pyfloat \<Rightarrow> blunder list \<Rightarrow> bool" where
  \<comment> \<open>\<open>evs\<close> is what a half-move contributes to the list of blunders: one entry with the
      given difference when its annotation is \<open>?\<close>, \<open>??\<close> or \<open>?!\<close>, nothing otherwise\<close>
  "emitted n player h delta evs =
     (if is_blunder_ann (hm_ann h)
      then (case delta of
              Inl _ \<Rightarrow> False
            | Inr d \<Rightarrow>
                evs = [\<lparr> bl_num = n, bl_player = player, bl_move = hm_move h,
                         bl_ann = hm_ann h, bl_diff = d \<rparr>])
      else evs = [])"


definition white_counts :: "gameplay \<Rightarrow> int list" where
  \<comment> \<open>the counts appended to White's half-moves, in the order of the full moves\<close>
  "white_counts g = concat (map (\<lambda>m. case m of [] \<Rightarrow> [] | h # _ \<Rightarrow> hm_rest h) g)"

definition black_counts :: "gameplay \<Rightarrow> int list" where
  \<comment> \<open>the counts appended to the other half-moves, in the order of the full moves\<close>
  "black_counts g =
     concat (map (\<lambda>m. case m of [] \<Rightarrow> [] | _ # bs \<Rightarrow> concat (map hm_rest bs)) g)"

definition all_counts :: "gameplay \<Rightarrow> int list" where
  \<comment> \<open>all appended counts in the order of the half-moves\<close>
  "all_counts g = concat (map (\<lambda>m. concat (map hm_rest m)) g)"

definition fresh :: "gameplay \<Rightarrow> bool" where
  \<comment> \<open>a game as the tokenizer returns it: no full move is empty and nothing is appended\<close>
  "fresh g = list_all (\<lambda>m. m \<noteq> [] \<and> list_all (\<lambda>h. hm_rest h = []) m) g"

definition n_captures :: "gameplay \<Rightarrow> nat" where
  \<comment> \<open>the number of half-moves whose move string holds the capture marker\<close>
  "n_captures g = length (filter captures (concat g))"


section \<open>Substring tests\<close>

lemma str_in_sublist: "str_in sub s = sublist sub s"
  by (induction s) (simp_all add: sublist_Cons_right)

lemma str_in_iff: "str_in sub s \<longleftrightarrow> (\<exists>ps ss. s = ps @ sub @ ss)"
  by (simp add: str_in_sublist sublist_def)

lemma str_in_minus_hash: "str_in ''-#'' e \<Longrightarrow> str_in ''#'' e"
proof -
  assume "str_in ''-#'' e"
  then obtain ps ss where "e = ps @ ''-#'' @ ss" by (auto simp: str_in_iff)
  then have "e = (ps @ ''-'') @ ''#'' @ ss" by simp
  then show ?thesis unfolding str_in_iff by blast
qed

lemma str_in_single: "str_in [c] s \<longleftrightarrow> c \<in> set s"
  by (induction s) (auto simp: prefix_Cons)


section \<open>The end-to-end scenario\<close>




section \<open>Polarity of the normalized evaluations\<close>

text \<open>
  C5: an evaluation string that contains \<open>-#\<close> becomes minus infinity for White and plus
  infinity for Black; one that contains \<open>#\<close> but not \<open>-#\<close> becomes plus infinity for
  White and minus infinity for Black; any other non-empty string is handed to \<open>float\<close>,
  and \<open>1.25\<close> parses as the number 1.25.
\<close>

theorem evaluation_polarity:
  "(str_in ''-#'' e \<longrightarrow>
      normalize_white flt e = Inr (Flt MInf) \<and> normalize_black flt w e = Inr (Flt PInf)) \<and>
   (str_in ''#'' e \<and> \<not> str_in ''-#'' e \<longrightarrow>
      normalize_white flt e = Inr (Flt PInf) \<and> normalize_black flt w e = Inr (Flt MInf)) \<and>
   (e \<noteq> [] \<and> \<not> str_in ''#'' e \<longrightarrow>
      normalize_white flt e = map_sum id Flt (flt e) \<and>
      normalize_black flt w e = map_sum id Flt (flt e)) \<and>
   py_float ''1.25'' = Inr (Fin (5 / 4))"
proof -
  have "py_float ''1.25'' = Inr (Fin (5 / 4))" by code_simp
  then show ?thesis
    using str_in_minus_hash [of e] by (auto simp: normalize_white_def normalize_black_def)
qed

theorem evaluation_polarity_witness:
  "normalize_white py_float ''-#3'' = Inr (Flt MInf) \<and>
   normalize_black py_float (Flt (Fin 0)) ''-#3'' = Inr (Flt PInf) \<and>
   normalize_white py_float ''#3'' = Inr (Flt PInf) \<and>
   normalize_black py_float (Flt (Fin 0)) ''#3'' = Inr (Flt MInf) \<and>
   normalize_white py_float ''1.25'' = Inr (Flt (Fin (5 / 4))) \<and>
   normalize_black py_float (Flt (Fin 0)) ''1.25'' = Inr (Flt (Fin (5 / 4)))"
proof -
  have a: "str_in ''-#'' ''-#3''" by simp
  have b: "str_in ''#'' ''#3'' \<and> \<not> str_in ''-#'' ''#3''" by simp
  have c: "''1.25'' \<noteq> [] \<and> \<not> str_in ''#'' ''1.25''" by simp
  show ?thesis
    using a b c evaluation_polarity [of "''-#3''" py_float "Flt (Fin 0)"]
      evaluation_polarity [of "''#3''" py_float "Flt (Fin 0)"]
      evaluation_polarity [of "''1.25''" py_float "Flt (Fin 0)"]
    by simp
qed


section \<open>Move tokens shorter than two characters\<close>

text \<open>
  C8, as the specification states it, fails on the program: the one-character token \<open>e\<close>
  is resolved to a pawn on the "square" \<open>e\<close>, and the token \<open>Q\<close>, empty once its
  promotion suffix is stripped, raises the \<open>IndexError\<close> of an out-of-range index.
\<close>

theorem short_token_counterexample:
  "resolve_blunder_move ''e'' = Inr (''P'', ''e'') \<and>
   resolve_blunder_move ''Q'' = Inl IndexError"
  by (simp add: resolve_blunder_move_def strip_promotion_def isupper_def last_two_def
      lookup_piece_def pieces_dict_keys_def)

text \<open>
  C8, amended: the resolver raises \<open>IndexError\<close> for the empty token and for a token that
  is empty once the promotion suffix is stripped. For a token that has exactly one
  character after stripping it stores that character as the square: with the pawn when
  the character is no uppercase letter, with the king when it is \<open>O\<close>, with the letter
  itself when that is a key of the pieces dictionary; any other uppercase letter raises
  the \<open>KeyError\<close> of the dictionary.
\<close>

theorem short_token_resolution:
  "resolve_blunder_move [] = Inl IndexError \<and>
   (strip_promotion m = Inr [] \<longrightarrow> resolve_blunder_move m = Inl IndexError) \<and>
   (strip_promotion m = Inr [c] \<longrightarrow>
      resolve_blunder_move m =
        (if \<not> isupper c then Inr (''P'', [c])
         else if c = CHR ''O'' then Inr (''K'', [c])
         else if [c] \<in> set pieces_dict_keys then Inr ([c], [c])
         else Inl KeyError))"
  by (simp add: resolve_blunder_move_def strip_promotion_def last_two_def prefix_Cons
      lookup_piece_def pieces_dict_keys_def)

theorem short_token_resolution_witness:
  "strip_promotion ''Q'' = Inr [] \<and> resolve_blunder_move ''Q'' = Inl IndexError \<and>
   strip_promotion ''e'' = Inr ''e'' \<and> resolve_blunder_move ''e'' = Inr (''P'', ''e'')"
proof -
  have a: "strip_promotion ''Q'' = Inr []" by (simp add: strip_promotion_def isupper_def)
  have b: "strip_promotion ''e'' = Inr ''e''" by (simp add: strip_promotion_def isupper_def)
  have c: "\<not> isupper CHR ''e''" by (simp add: isupper_def)
  show ?thesis
    using a b c short_token_resolution [of "''Q''"]
      short_token_resolution [of "''e''" "CHR ''e''"]
    by simp
qed

section \<open>The tokenizer\<close>

lemma re_split_from_not_Nil: "re_split_from m k cur s \<noteq> []"
  by (induction m k cur s rule: re_split_from.induct) (auto split: option.splits)








section \<open>The evaluation strings of the tokenizer\<close>

lemma is_digit_not_special:
  "is_digit c \<Longrightarrow> c \<noteq> CHR ''.'' \<and> c \<noteq> CHR ''-'' \<and> c \<noteq> CHR ''#''"
  by (auto simp: is_digit_def)

lemma list_all_takeWhile: "list_all P (takeWhile P xs)"
  by (induction xs) auto

lemma all_digits_takeWhile: "takeWhile is_digit r \<noteq> [] \<Longrightarrow> all_digits (takeWhile is_digit r)"
  by (simp add: all_digits_def list_all_takeWhile)

lemma all_digits_no_special:
  "all_digits ds \<Longrightarrow> CHR ''.'' \<notin> set ds \<and> CHR ''-'' \<notin> set ds \<and> CHR ''#'' \<notin> set ds"
  using is_digit_not_special by (auto simp: all_digits_def list_all_iff)

lemma all_digits_hd: "all_digits ds \<Longrightarrow> \<exists>d r. ds = d # r \<and> d \<noteq> CHR ''-'' \<and> d \<noteq> CHR ''#''"
  using is_digit_not_special by (cases ds) (auto simp: all_digits_def)

lemma mate_shapeI:
  assumes "all_digits ds"
  shows "mate_shape (CHR ''#'' # ds)" and "mate_shape (CHR ''#'' # CHR ''-'' # ds)"
proof -
  from assms obtain d r where "ds = d # r" and "d \<noteq> CHR ''-''" using all_digits_hd by blast
  with assms show "mate_shape (CHR ''#'' # ds)" by (simp add: mate_shape_def)
  from assms show "mate_shape (CHR ''#'' # CHR ''-'' # ds)" by (simp add: mate_shape_def)
qed

lemma match_mate_cases:
  "match_mate s = Some m \<Longrightarrow>
     \<exists>ds. all_digits ds \<and> (m = CHR ''#'' # ds \<or> m = CHR ''#'' # CHR ''-'' # ds)"
  unfolding match_mate_def
  by (simp split: list.splits if_splits del: takeWhile.simps) (use all_digits_takeWhile in blast)+

lemma match_mate_shape: "match_mate s = Some m \<Longrightarrow> mate_shape m"
  using match_mate_cases mate_shapeI by blast

lemma unsigned_decimal_shapeI:
  assumes "all_digits ds" and "all_digits fr"
  shows "unsigned_decimal_shape (ds @ CHR ''.'' # fr)"
proof -
  from assms(1) have "\<forall>x \<in> set ds. x \<noteq> CHR ''.''" using all_digits_no_special by blast
  then have "takeWhile (\<lambda>c. c \<noteq> CHR ''.'') (ds @ CHR ''.'' # fr) = ds"
    and "dropWhile (\<lambda>c. c \<noteq> CHR ''.'') (ds @ CHR ''.'' # fr) = CHR ''.'' # fr"
    by (simp_all add: takeWhile_append2 dropWhile_append2)
  with assms show ?thesis by (simp add: unsigned_decimal_shape_def)
qed

lemma match_decimal_unsigned_shape:
  "match_decimal_unsigned s = Some m \<Longrightarrow> unsigned_decimal_shape m"
  by (auto simp: match_decimal_unsigned_def Let_def all_digits_takeWhile
      split: list.splits if_splits intro!: unsigned_decimal_shapeI)

lemma unsigned_decimal_shape_hd:
  "unsigned_decimal_shape u \<Longrightarrow> \<exists>d r. u = d # r \<and> d \<noteq> CHR ''-''"
  by (cases u) (auto simp: unsigned_decimal_shape_def all_digits_def is_digit_def split: if_splits)

lemma match_decimal_shape: "match_decimal s = Some m \<Longrightarrow> decimal_shape m"
proof (cases s)
  case Nil
  assume "match_decimal s = Some m"
  with Nil show ?thesis by (simp add: match_decimal_def)
next
  case (Cons c r)
  assume a: "match_decimal s = Some m"
  show ?thesis
  proof (cases "c = CHR ''-''")
    case True
    with a Cons obtain u where "match_decimal_unsigned r = Some u" and "m = CHR ''-'' # u"
      by (auto simp: match_decimal_def)
    then show ?thesis using match_decimal_unsigned_shape by (simp add: decimal_shape_def)
  next
    case False
    with a Cons have "match_decimal_unsigned s = Some m" by (simp add: match_decimal_def)
    then have u: "unsigned_decimal_shape m" by (rule match_decimal_unsigned_shape)
    then obtain d r' where "m = d # r'" and "d \<noteq> CHR ''-''"
      using unsigned_decimal_shape_hd by blast
    with u show ?thesis by (simp add: decimal_shape_def)
  qed
qed

lemma find_eval_shape:
  "find_eval s = [] \<or> decimal_shape (find_eval s) \<or> mate_shape (find_eval s)"
  by (induction s) (auto split: option.splits dest: match_mate_shape match_decimal_shape)

lemma str_in_pair_tl: "str_in [a, b] s \<Longrightarrow> b \<in> set (tl s)"
proof (induction s)
  case Nil
  then show ?case by simp
next
  case (Cons c cs)
  then show ?case by (cases cs) (auto simp: prefix_Cons)
qed

lemma mate_shape_hash: "mate_shape e \<Longrightarrow> str_in ''#'' e \<and> \<not> str_in ''-#'' e"
proof -
  assume a: "mate_shape e"
  then obtain r where e: "e = CHR ''#'' # r" by (auto simp: mate_shape_def split: list.splits)
  with a have "CHR ''#'' \<notin> set r"
    by (auto simp: mate_shape_def split: list.splits if_splits dest: all_digits_no_special)
  with e show ?thesis using str_in_pair_tl [of "CHR ''-''" "CHR ''#''" e] by (auto simp: str_in_single)
qed

lemma unsigned_decimal_shape_set:
  "unsigned_decimal_shape u \<Longrightarrow> CHR ''#'' \<notin> set u"
proof -
  assume a: "unsigned_decimal_shape u"
  let ?P = "\<lambda>c. c \<noteq> CHR ''.''"
  from a obtain p fr where d: "dropWhile ?P u = p # fr" and f: "all_digits fr"
    by (auto simp: unsigned_decimal_shape_def split: list.splits)
  from a have t: "all_digits (takeWhile ?P u)" by (simp add: unsigned_decimal_shape_def)
  have "\<not> ?P (hd (dropWhile ?P u))" by (rule hd_dropWhile) (simp add: d)
  then have p: "p = CHR ''.''" by (simp add: d)
  have "set u = set (takeWhile ?P u) \<union> set (dropWhile ?P u)"
    by (metis set_append takeWhile_dropWhile_id)
  then have "set u = set (takeWhile ?P u) \<union> insert CHR ''.'' (set fr)" by (simp add: d p)
  then show ?thesis
    using all_digits_no_special [OF t] all_digits_no_special [OF f] by simp
qed

lemma decimal_shape_no_hash: "decimal_shape e \<Longrightarrow> \<not> str_in ''#'' e"
  by (auto simp: decimal_shape_def str_in_single split: list.splits if_splits
      dest: unsigned_decimal_shape_set)

text \<open>
  C10: every evaluation string in the output of the tokenizer is empty, of the decimal
  shape or of the mate shape; none contains \<open>-#\<close>; so a mate evaluation, also \<open>#-N\<close>, is
  normalized by the plain \<open>#\<close> branch: plus infinity for White, minus infinity for Black.
\<close>

theorem tokenizer_eval_strings:
  "\<forall>full_move \<in> set (convert_gameplay s). \<forall>h \<in> set full_move.
     (hm_eval h = [] \<or> decimal_shape (hm_eval h) \<or> mate_shape (hm_eval h)) \<and>
     \<not> str_in ''-#'' (hm_eval h) \<and>
     (mate_shape (hm_eval h) \<longrightarrow>
        normalize_white flt (hm_eval h) = Inr (Flt PInf) \<and>
        normalize_black flt w (hm_eval h) = Inr (Flt MInf))"
proof (intro ballI)
  fix full_move h
  assume "full_move \<in> set (convert_gameplay s)" and "h \<in> set full_move"
  then obtain x where e: "hm_eval h = find_eval x"
    by (auto simp: convert_gameplay_def convert_half_move_def Let_def)
  have shape: "hm_eval h = [] \<or> decimal_shape (hm_eval h) \<or> mate_shape (hm_eval h)"
    unfolding e by (rule find_eval_shape)
  have no: "\<not> str_in ''-#'' (hm_eval h)"
    using shape mate_shape_hash decimal_shape_no_hash str_in_minus_hash by fastforce
  have "mate_shape (hm_eval h) \<longrightarrow>
        normalize_white flt (hm_eval h) = Inr (Flt PInf) \<and>
        normalize_black flt w (hm_eval h) = Inr (Flt MInf)"
    using mate_shape_hash by (auto simp: normalize_white_def normalize_black_def)
  with shape no show "(hm_eval h = [] \<or> decimal_shape (hm_eval h) \<or> mate_shape (hm_eval h)) \<and>
     \<not> str_in ''-#'' (hm_eval h) \<and>
     (mate_shape (hm_eval h) \<longrightarrow>
        normalize_white flt (hm_eval h) = Inr (Flt PInf) \<and>
        normalize_black flt w (hm_eval h) = Inr (Flt MInf))" by blast
qed

theorem tokenizer_eval_strings_witness:
  "convert_gameplay ''1. Qh5 #-3 1... Ke7 0.5'' =
     [[\<lparr>hm_move = ''Qh5'', hm_eval = ''#-3'', hm_ann = [], hm_rest = []\<rparr>,
       \<lparr>hm_move = ''Ke7'', hm_eval = ''0.5'', hm_ann = [], hm_rest = []\<rparr>]] \<and>
   mate_shape ''#-3'' \<and> decimal_shape ''0.5'' \<and> \<not> str_in ''-#'' ''#-3'' \<and>
   normalize_white py_float ''#-3'' = Inr (Flt PInf) \<and>
   normalize_black py_float (Flt PInf) ''#-3'' = Inr (Flt MInf)"
proof -
  have g: "convert_gameplay ''1. Qh5 #-3 1... Ke7 0.5'' =
     [[\<lparr>hm_move = ''Qh5'', hm_eval = ''#-3'', hm_ann = [], hm_rest = []\<rparr>,
       \<lparr>hm_move = ''Ke7'', hm_eval = ''0.5'', hm_ann = [], hm_rest = []\<rparr>]]"
    by code_simp
  have m: "mate_shape ''#-3''" by code_simp
  have d: "decimal_shape ''0.5''" by code_simp
  show ?thesis
    using g m d tokenizer_eval_strings [of "''1. Qh5 #-3 1... Ke7 0.5''" py_float "Flt PInf"]
    by simp
qed

section \<open>Castling\<close>

lemma str_in_butlast:
  assumes "m \<noteq> []" and "tag \<noteq> []" and "last m \<noteq> last tag"
  shows "str_in tag (butlast m) = str_in tag m"
proof
  assume "str_in tag (butlast m)"
  then obtain ps ss where "butlast m = ps @ tag @ ss" by (auto simp: str_in_iff)
  then have "m = ps @ tag @ (ss @ [last m])"
    using assms(1) by (metis append_assoc append_butlast_last_id)
  then show "str_in tag m" unfolding str_in_iff by blast
next
  assume "str_in tag m"
  then obtain ps ss where m: "m = ps @ tag @ ss" by (auto simp: str_in_iff)
  have "ss \<noteq> []"
  proof
    assume "ss = []"
    with m assms(2) have "last m = last tag" by simp
    with assms(3) show False by simp
  qed
  with m have "butlast m = ps @ tag @ butlast ss" by (simp add: butlast_append assms(2))
  then show "str_in tag (butlast m)" unfolding str_in_iff by blast
qed

lemma strip_promotion_castle:
  assumes "m = CHR ''O'' # r" and "last tag = CHR ''O''" and "tag \<noteq> []"
  shows "\<exists>r'. strip_promotion m = Inr (CHR ''O'' # r') \<and>
              str_in tag (CHR ''O'' # r') = str_in tag m"
proof (cases "isupper (last m) \<and> last m \<noteq> CHR ''O''")
  case True
  with assms(1) have "r \<noteq> []" by auto
  with assms(1) have b: "butlast m = CHR ''O'' # butlast r" by simp
  from True assms(1) have "strip_promotion m = Inr (butlast m)" by (simp add: strip_promotion_def)
  moreover have "str_in tag (butlast m) = str_in tag m"
    using True assms by (intro str_in_butlast) auto
  ultimately show ?thesis using b by auto
next
  case False
  with assms(1) have "strip_promotion m = Inr m" by (auto simp: strip_promotion_def)
  with assms(1) show ?thesis by auto
qed

lemma isupper_O: "isupper CHR ''O''"
  by (simp add: isupper_def)

text \<open>
  C9, as the specification states it, fails on the program. In the blunder loop the
  castling tags are looked for only when the first character of the token is \<open>O\<close>:
  \<open>xO-O-O\<close> contains the long tag and is resolved to a pawn. In the all-moves loop the
  tags are compared with the elements of the half-move list, not searched in the token:
  \<open>O-O-Ox\<close> contains the long tag and keeps the square \<open>Ox\<close>.
\<close>

theorem castling_counterexample:
  "resolve_blunder_move ''xO-O-O'' = Inr (''P'', ''-O'') \<and>
   resolve_half_move \<lparr>hm_move = ''O-O-Ox'', hm_eval = [], hm_ann = [], hm_rest = [16]\<rparr>
     = Inr (''K'', ''Ox'')"
  by (simp add: resolve_blunder_move_def resolve_half_move_def strip_promotion_def isupper_def
      last_two_def lookup_piece_def pieces_dict_keys_def)

text \<open>
  C9, amended: in the blunder loop, a move token whose first character is \<open>O\<close> is
  resolved to the king with \<open>O-O-O\<close> when it contains \<open>O-O-O\<close>, and to the king with
  \<open>O-O\<close> when it contains \<open>O-O\<close> but not \<open>O-O-O\<close>; the long tag is tested first. In the
  all-moves loop, for a half-move that carries its count, the token \<open>O-O-O\<close> is resolved
  to the king with \<open>O-O-O\<close>, and the token \<open>O-O\<close> to the king with \<open>O-O\<close> (its
  evaluation and annotation not being the long tag).
\<close>

theorem castling_resolution:
  "(m = CHR ''O'' # r \<and> str_in ''O-O-O'' m \<longrightarrow>
      resolve_blunder_move m = Inr (''K'', ''O-O-O'')) \<and>
   (m = CHR ''O'' # r \<and> str_in ''O-O'' m \<and> \<not> str_in ''O-O-O'' m \<longrightarrow>
      resolve_blunder_move m = Inr (''K'', ''O-O'')) \<and>
   (hm_move h = ''O-O-O'' \<and> hm_rest h \<noteq> [] \<longrightarrow>
      resolve_half_move h = Inr (''K'', ''O-O-O'')) \<and>
   (hm_move h = ''O-O'' \<and> hm_rest h \<noteq> [] \<and> hm_eval h \<noteq> ''O-O-O'' \<and> hm_ann h \<noteq> ''O-O-O'' \<longrightarrow>
      resolve_half_move h = Inr (''K'', ''O-O''))"
proof (intro conjI impI)
  assume a: "m = CHR ''O'' # r \<and> str_in ''O-O-O'' m"
  then obtain r' where s: "strip_promotion m = Inr (CHR ''O'' # r')"
    and "str_in ''O-O-O'' (CHR ''O'' # r') = str_in ''O-O-O'' m"
    using strip_promotion_castle [of m r "''O-O-O''"] by auto
  with a have l: "str_in ''O-O-O'' (CHR ''O'' # r')" by blast
  show "resolve_blunder_move m = Inr (''K'', ''O-O-O'')"
    unfolding resolve_blunder_move_def s using l
    by (simp add: isupper_O lookup_piece_def pieces_dict_keys_def del: str_in.simps)
next
  assume a: "m = CHR ''O'' # r \<and> str_in ''O-O'' m \<and> \<not> str_in ''O-O-O'' m"
  then obtain r' where s: "strip_promotion m = Inr (CHR ''O'' # r')"
    and "str_in ''O-O-O'' (CHR ''O'' # r') = str_in ''O-O-O'' m"
    using strip_promotion_castle [of m r "''O-O-O''"] by auto
  with a have l: "\<not> str_in ''O-O-O'' (CHR ''O'' # r')" by blast
  from a obtain r'' where s': "strip_promotion m = Inr (CHR ''O'' # r'')"
    and e: "str_in ''O-O'' (CHR ''O'' # r'') = str_in ''O-O'' m"
    using strip_promotion_castle [of m r "''O-O''"] by auto
  from s s' have "r'' = r'" by simp
  with e a have t: "str_in ''O-O'' (CHR ''O'' # r')" by blast
  show "resolve_blunder_move m = Inr (''K'', ''O-O'')"
    unfolding resolve_blunder_move_def s using l t
    by (simp add: isupper_O lookup_piece_def pieces_dict_keys_def del: str_in.simps)
next
  assume "hm_move h = ''O-O-O'' \<and> hm_rest h \<noteq> []"
  then show "resolve_half_move h = Inr (''K'', ''O-O-O'')"
    by (simp add: resolve_half_move_def strip_promotion_def isupper_O lookup_piece_def
        pieces_dict_keys_def)
next
  assume "hm_move h = ''O-O'' \<and> hm_rest h \<noteq> [] \<and> hm_eval h \<noteq> ''O-O-O'' \<and>
    hm_ann h \<noteq> ''O-O-O''"
  then show "resolve_half_move h = Inr (''K'', ''O-O'')"
    by (auto simp: resolve_half_move_def strip_promotion_def isupper_O lookup_piece_def
        pieces_dict_keys_def)
qed

theorem castling_resolution_witness:
  "resolve_blunder_move ''O-O-O'' = Inr (''K'', ''O-O-O'') \<and>
   resolve_blunder_move ''O-O'' = Inr (''K'', ''O-O'') \<and>
   resolve_half_move \<lparr>hm_move = ''O-O-O'', hm_eval = [], hm_ann = [], hm_rest = [16]\<rparr>
     = Inr (''K'', ''O-O-O'') \<and>
   resolve_half_move \<lparr>hm_move = ''O-O'', hm_eval = ''0.3'', hm_ann = [], hm_rest = [16]\<rparr>
     = Inr (''K'', ''O-O'')"
proof -
  have a: "str_in ''O-O-O'' ''O-O-O''" by simp
  have b: "str_in ''O-O'' ''O-O'' \<and> \<not> str_in ''O-O-O'' ''O-O''" by simp
  show ?thesis
    using a b
      castling_resolution [of "''O-O-O''" "''-O-O''"
        "\<lparr>hm_move = ''O-O-O'', hm_eval = [], hm_ann = [], hm_rest = [16]\<rparr>"]
      castling_resolution [of "''O-O''" "''-O''"
        "\<lparr>hm_move = ''O-O'', hm_eval = ''0.3'', hm_ann = [], hm_rest = [16]\<rparr>"]
    by simp
qed

section \<open>The loop of the blunder classifier\<close>

lemma fneg_fsub: "fneg (fsub a b) = fsub b a"
  by (cases a; cases b) simp_all

lemma py_sub_swap: "py_sub a b = Inr d \<Longrightarrow> py_sub b a = Inr (fneg d)"
  by (cases a; cases b) (auto simp: fneg_fsub)

lemma emitted_num: "emitted n player h delta evs \<Longrightarrow> e \<in> set evs \<Longrightarrow> bl_num e = n"
  by (auto simp: emitted_def split: if_splits sum.splits)

lemma white_blunder_emitted:
  assumes "white_blunder bl p i hw ew = Inr bl1"
  obtains W where "bl1 = bl @ W" and "emitted (i + 1) ''w'' hw (py_sub p ew) W"
  using assms by (auto simp: white_blunder_def emitted_def split: if_splits sum.splits)

lemma black_blunder_emitted:
  assumes "black_blunder bl1 i hb ew eb = Inr bl2"
  obtains B where "bl2 = bl1 @ B" and "emitted (i + 1) ''b'' hb (py_sub eb ew) B"
  using assms
  by (auto simp: black_blunder_def emitted_def split: if_splits sum.splits dest: py_sub_swap)

lemma blunder_body_Inr:
  assumes "blunder_body flt bl p i m = Inr (bl', eb)"
  obtains hw hb ew W B where "m = [hw, hb]"
    and "normalize_white flt (hm_eval hw) = Inr ew"
    and "normalize_black flt ew (hm_eval hb) = Inr eb"
    and "bl' = bl @ W @ B"
    and "emitted (i + 1) ''w'' hw (py_sub p ew) W"
    and "emitted (i + 1) ''b'' hb (py_sub eb ew) B"
proof -
  from assms obtain hw hb where m: "m = [hw, hb]"
    by (auto simp: blunder_body_def split: list.splits)
  from assms m obtain ew bl1 where nw: "normalize_white flt (hm_eval hw) = Inr ew"
    and nb: "normalize_black flt ew (hm_eval hb) = Inr eb"
    and w: "white_blunder bl p i hw ew = Inr bl1"
    and b: "black_blunder bl1 i hb ew eb = Inr bl'"
    by (auto simp: blunder_body_def split: if_splits sum.splits)
  from w obtain W where W: "bl1 = bl @ W" "emitted (i + 1) ''w'' hw (py_sub p ew) W"
    by (rule white_blunder_emitted)
  from b obtain B where B: "bl' = bl1 @ B" "emitted (i + 1) ''b'' hb (py_sub eb ew) B"
    by (rule black_blunder_emitted)
  from W B have "bl' = bl @ W @ B" by simp
  with m nw nb W B show ?thesis using that by blast
qed

lemma blunder_body_nums:
  assumes "blunder_body flt bl p i m = Inr (bl', eb)"
  obtains ev where "bl' = bl @ ev" and "\<forall>e \<in> set ev. bl_num e = i + 1"
proof -
  from assms obtain hw hb ew W B where "bl' = bl @ W @ B"
    and "emitted (i + 1) ''w'' hw (py_sub p ew) W"
    and "emitted (i + 1) ''b'' hb (py_sub eb ew) B"
    by (rule blunder_body_Inr)
  then have "bl' = bl @ (W @ B)" and "\<forall>e \<in> set (W @ B). bl_num e = i + 1"
    using emitted_num by auto
  then show ?thesis using that by blast
qed

lemma blunder_loop_nums:
  "blunder_loop flt bl p i g = Inr (bl', q) \<Longrightarrow>
     \<exists>ev. bl' = bl @ ev \<and> (\<forall>e \<in> set ev. i < bl_num e \<and> bl_num e \<le> i + length g)"
proof (induction g arbitrary: bl p i)
  case Nil
  then show ?case by simp
next
  case (Cons m g)
  show ?case
  proof (cases "length m < 2")
    case True
    with Cons.prems show ?thesis by simp
  next
    case False
    with Cons.prems obtain bl1 eb where b: "blunder_body flt bl p i m = Inr (bl1, eb)"
      and l: "blunder_loop flt bl1 eb (Suc i) g = Inr (bl', q)"
      by (auto split: sum.splits)
    from b obtain ev1 where e1: "bl1 = bl @ ev1" "\<forall>e \<in> set ev1. bl_num e = i + 1"
      by (rule blunder_body_nums)
    from Cons.IH [OF l] obtain ev2 where e2: "bl' = bl1 @ ev2"
      "\<forall>e \<in> set ev2. Suc i < bl_num e \<and> bl_num e \<le> Suc i + length g" by blast
    from e1 e2 have "bl' = bl @ (ev1 @ ev2)" by simp
    moreover from e1 e2 have "\<forall>e \<in> set (ev1 @ ev2). i < bl_num e \<and> bl_num e \<le> i + length (m # g)"
      by auto
    ultimately show ?thesis by blast
  qed
qed

lemma blunder_loop_stop:
  "k < length g \<Longrightarrow> length (g ! k) < 2 \<Longrightarrow>
     blunder_loop flt bl p i g = blunder_loop flt bl p i (take k g)"
proof (induction g arbitrary: k bl p i)
  case Nil
  then show ?case by simp
next
  case (Cons m g)
  show ?case
  proof (cases k)
    case 0
    with Cons.prems show ?thesis by simp
  next
    case (Suc k')
    with Cons.prems have "k' < length g" and "length (g ! k') < 2" by simp_all
    then have "\<And>bl p i. blunder_loop flt bl p i g = blunder_loop flt bl p i (take k' g)"
      by (rule Cons.IH)
    then show ?thesis by (simp add: Suc split: sum.splits)
  qed
qed

text \<open>
  C4: the classifier stops at the first full move that has no Black half-move. Its result
  is that of the game cut before this full move, and no blunder it reports has the number
  of this full move or of a later one, whatever annotation White's half-move carries.
\<close>

theorem find_blunder_stops:
  assumes "k < length g" and "length (g ! k) < 2"
  shows "find_blunder flt g = find_blunder flt (take k g) \<and>
         (\<forall>evs. find_blunder flt g = Inr evs \<longrightarrow> (\<forall>e \<in> set evs. bl_num e \<le> k))"
proof -
  have eq: "blunder_loop flt [] (Flt (Fin 0)) 0 g = blunder_loop flt [] (Flt (Fin 0)) 0 (take k g)"
    using assms by (rule blunder_loop_stop)
  have "\<forall>e \<in> set evs. bl_num e \<le> k" if "find_blunder flt g = Inr evs" for evs
  proof -
    from that eq obtain q where "blunder_loop flt [] (Flt (Fin 0)) 0 (take k g) = Inr (evs, q)"
      by (cases "blunder_loop flt [] (Flt (Fin 0)) 0 (take k g)") (auto simp: find_blunder_def)
    from blunder_loop_nums [OF this] assms(1) show ?thesis by auto
  qed
  with eq show ?thesis by (simp add: find_blunder_def)
qed

theorem find_blunder_stops_witness:
  "find_blunder py_float
     [[\<lparr>hm_move = ''e4'', hm_eval = ''0.3'', hm_ann = ''?'', hm_rest = [16]\<rparr>,
       \<lparr>hm_move = ''e5'', hm_eval = ''0.4'', hm_ann = [], hm_rest = [16]\<rparr>],
      [\<lparr>hm_move = ''Qh5'', hm_eval = ''-2.5'', hm_ann = ''??'', hm_rest = [16]\<rparr>]]
   = find_blunder py_float
     [[\<lparr>hm_move = ''e4'', hm_eval = ''0.3'', hm_ann = ''?'', hm_rest = [16]\<rparr>,
       \<lparr>hm_move = ''e5'', hm_eval = ''0.4'', hm_ann = [], hm_rest = [16]\<rparr>]] \<and>
   find_blunder py_float
     [[\<lparr>hm_move = ''e4'', hm_eval = ''0.3'', hm_ann = ''?'', hm_rest = [16]\<rparr>,
       \<lparr>hm_move = ''e5'', hm_eval = ''0.4'', hm_ann = [], hm_rest = [16]\<rparr>],
      [\<lparr>hm_move = ''Qh5'', hm_eval = ''-2.5'', hm_ann = ''??'', hm_rest = [16]\<rparr>]]
   = Inr [\<lparr>bl_num = 1, bl_player = ''w'', bl_move = ''e4'', bl_ann = ''?'',
           bl_diff = Fin (- (3 / 10))\<rparr>]"
proof -
  let ?g = "[[\<lparr>hm_move = ''e4'', hm_eval = ''0.3'', hm_ann = ''?'', hm_rest = [16]\<rparr>,
       \<lparr>hm_move = ''e5'', hm_eval = ''0.4'', hm_ann = [], hm_rest = [16]\<rparr>],
      [\<lparr>hm_move = ''Qh5'', hm_eval = ''-2.5'', hm_ann = ''??'', hm_rest = [16::int]\<rparr>]]"
  have a: "1 < length ?g" by simp
  have b: "length (?g ! 1) < 2" by simp
  have c: "find_blunder py_float (take 1 ?g)
     = Inr [\<lparr>bl_num = 1, bl_player = ''w'', bl_move = ''e4'', bl_ann = ''?'',
             bl_diff = Fin (- (3 / 10))\<rparr>]"
    by code_simp
  show ?thesis using find_blunder_stops [OF a b, of py_float] c by simp
qed

section \<open>What the classifier does at a scanned full move\<close>

lemma emitted_player: "emitted n player h delta evs \<Longrightarrow> e \<in> set evs \<Longrightarrow> bl_player e = player"
  by (auto simp: emitted_def split: if_splits sum.splits)

lemma filter_emitted_same: "emitted n player h delta evs \<Longrightarrow> [e \<leftarrow> evs. bl_num e = n] = evs"
  by (auto simp: emitted_def split: if_splits sum.splits)

lemma filter_emitted_other:
  "emitted n player h delta evs \<Longrightarrow> n \<noteq> n' \<Longrightarrow> [e \<leftarrow> evs. bl_num e = n'] = []"
  by (auto simp: emitted_def split: if_splits sum.splits)

lemma blunder_loop_ply:
  assumes "blunder_loop flt bl0 p0 i0 g = Inr (evs, q)"
    and "k < length g" and "\<forall>j\<le>k. 2 \<le> length (g ! j)"
  shows "\<exists>hw hb bl prior ew eb W B.
      g ! k = [hw, hb] \<and>
      blunder_loop flt bl0 p0 i0 (take k g) = Inr (bl, prior) \<and>
      (k = 0 \<longrightarrow> prior = p0) \<and>
      normalize_white flt (hm_eval hw) = Inr ew \<and>
      normalize_black flt ew (hm_eval hb) = Inr eb \<and>
      blunder_loop flt bl0 p0 i0 (take (Suc k) g) = Inr (bl @ W @ B, eb) \<and>
      [e \<leftarrow> evs. bl_num e = i0 + k + 1] = [e \<leftarrow> bl0. bl_num e = i0 + k + 1] @ W @ B \<and>
      emitted (i0 + k + 1) ''w'' hw (py_sub prior ew) W \<and>
      emitted (i0 + k + 1) ''b'' hb (py_sub eb ew) B"
  using assms
proof (induction k arbitrary: g bl0 p0 i0)
  case 0
  from "0.prems"(2) obtain m rest where g: "g = m # rest" by (cases g) auto
  with "0.prems"(3) have len: "\<not> length m < 2" by auto
  with "0.prems"(1) g obtain bl1 eb where b: "blunder_body flt bl0 p0 i0 m = Inr (bl1, eb)"
    and l: "blunder_loop flt bl1 eb (Suc i0) rest = Inr (evs, q)"
    by (auto split: sum.splits)
  from b obtain hw hb ew W B where m: "m = [hw, hb]"
    and nw: "normalize_white flt (hm_eval hw) = Inr ew"
    and nb: "normalize_black flt ew (hm_eval hb) = Inr eb"
    and bl1: "bl1 = bl0 @ W @ B"
    and W: "emitted (i0 + 1) ''w'' hw (py_sub p0 ew) W"
    and B: "emitted (i0 + 1) ''b'' hb (py_sub eb ew) B"
    by (rule blunder_body_Inr)
  from blunder_loop_nums [OF l] obtain ev2 where evs: "evs = bl1 @ ev2"
    and later: "\<forall>e \<in> set ev2. Suc i0 < bl_num e" by blast
  from later have "[e \<leftarrow> ev2. bl_num e = i0 + 1] = []" by (auto simp: filter_empty_conv)
  then have f: "[e \<leftarrow> evs. bl_num e = i0 + 0 + 1] = [e \<leftarrow> bl0. bl_num e = i0 + 0 + 1] @ W @ B"
    using filter_emitted_same [OF W] filter_emitted_same [OF B] by (simp add: evs bl1)
  have t0: "blunder_loop flt bl0 p0 i0 (take 0 g) = Inr (bl0, p0)" by simp
  have t1: "blunder_loop flt bl0 p0 i0 (take (Suc 0) g) = Inr (bl0 @ W @ B, eb)"
    using b len by (simp add: g bl1)
  have gk: "g ! 0 = [hw, hb]" by (simp add: g m)
  from W have W': "emitted (i0 + 0 + 1) ''w'' hw (py_sub p0 ew) W" by simp
  from B have B': "emitted (i0 + 0 + 1) ''b'' hb (py_sub eb ew) B" by simp
  from gk t0 nw nb t1 f W' B' show ?case by blast
next
  case (Suc k)
  from Suc.prems(2) obtain m rest where g: "g = m # rest" by (cases g) auto
  from Suc.prems(3) have "2 \<le> length (g ! 0)" by blast
  with g have len: "\<not> length m < 2" by simp
  with Suc.prems(1) g obtain bl1 eb1 where b: "blunder_body flt bl0 p0 i0 m = Inr (bl1, eb1)"
    and l: "blunder_loop flt bl1 eb1 (Suc i0) rest = Inr (evs, q)"
    by (auto split: sum.splits)
  from Suc.prems(2) g have k: "k < length rest" by simp
  have sc: "\<forall>j\<le>k. 2 \<le> length (rest ! j)"
  proof (intro allI impI)
    fix j assume "j \<le> k"
    then have "Suc j \<le> Suc k" by simp
    with Suc.prems(3) have "2 \<le> length (g ! Suc j)" by blast
    then show "2 \<le> length (rest ! j)" by (simp add: g)
  qed
  from Suc.IH [OF l k sc] obtain hw hb bl prior ew eb W B where
    gk: "rest ! k = [hw, hb]"
    and t0: "blunder_loop flt bl1 eb1 (Suc i0) (take k rest) = Inr (bl, prior)"
    and nw: "normalize_white flt (hm_eval hw) = Inr ew"
    and nb: "normalize_black flt ew (hm_eval hb) = Inr eb"
    and t1: "blunder_loop flt bl1 eb1 (Suc i0) (take (Suc k) rest) = Inr (bl @ W @ B, eb)"
    and f: "[e \<leftarrow> evs. bl_num e = Suc i0 + k + 1] = [e \<leftarrow> bl1. bl_num e = Suc i0 + k + 1] @ W @ B"
    and W: "emitted (Suc i0 + k + 1) ''w'' hw (py_sub prior ew) W"
    and B: "emitted (Suc i0 + k + 1) ''b'' hb (py_sub eb ew) B"
    by blast
  from b obtain ev1 where bl1: "bl1 = bl0 @ ev1" and n1: "\<forall>e \<in> set ev1. bl_num e = i0 + 1"
    by (rule blunder_body_nums)
  from n1 have "[e \<leftarrow> ev1. bl_num e = Suc i0 + k + 1] = []" by (auto simp: filter_empty_conv)
  with f have f': "[e \<leftarrow> evs. bl_num e = i0 + Suc k + 1] = [e \<leftarrow> bl0. bl_num e = i0 + Suc k + 1] @ W @ B"
    by (simp add: bl1)
  have gk': "g ! Suc k = [hw, hb]" by (simp add: g gk)
  have t0': "blunder_loop flt bl0 p0 i0 (take (Suc k) g) = Inr (bl, prior)"
    using b len t0 by (simp add: g)
  have t1': "blunder_loop flt bl0 p0 i0 (take (Suc (Suc k)) g) = Inr (bl @ W @ B, eb)"
    using b len t1 by (simp add: g)
  from W have W': "emitted (i0 + Suc k + 1) ''w'' hw (py_sub prior ew) W" by simp
  from B have B': "emitted (i0 + Suc k + 1) ''b'' hb (py_sub eb ew) B" by simp
  from gk' t0' nw nb t1' f' W' B' show ?case by blast
qed

lemma find_blunder_Inr:
  "find_blunder flt g = Inr evs \<Longrightarrow> \<exists>q. blunder_loop flt [] (Flt (Fin 0)) 0 g = Inr (evs, q)"
  by (cases "blunder_loop flt [] (Flt (Fin 0)) 0 g") (auto simp: find_blunder_def)




section \<open>A missing evaluation of Black\<close>

text \<open>
  C6: at a scanned full move whose Black half-move has the empty evaluation string, the
  classifier takes White's normalized evaluation of this full move for Black's: Black's
  blunder, if the annotation asks for one, has the difference of White's evaluation with
  itself, and White's evaluation is the \<open>eval_b_before\<close> the loop carries on.
\<close>

theorem missing_black_eval:
  assumes "find_blunder flt g = Inr evs"
    and "k < length g" and "\<forall>j\<le>k. 2 \<le> length (g ! j)"
    and "hm_eval (g ! k ! 1) = []"
  shows "\<exists>bl ew.
      normalize_white flt (hm_eval (g ! k ! 0)) = Inr ew \<and>
      blunder_loop flt [] (Flt (Fin 0)) 0 (take (Suc k) g) = Inr (bl, ew) \<and>
      emitted (k + 1) ''b'' (g ! k ! 1) (py_sub ew ew)
        [e \<leftarrow> evs. bl_num e = k + 1 \<and> bl_player e = ''b'']"
proof -
  from assms(1) obtain q where "blunder_loop flt [] (Flt (Fin 0)) 0 g = Inr (evs, q)"
    using find_blunder_Inr by blast
  from blunder_loop_ply [OF this assms(2,3)] obtain hw hb bl prior ew eb W B where
    gk: "g ! k = [hw, hb]"
    and nw: "normalize_white flt (hm_eval hw) = Inr ew"
    and nb: "normalize_black flt ew (hm_eval hb) = Inr eb"
    and t1: "blunder_loop flt [] (Flt (Fin 0)) 0 (take (Suc k) g) = Inr (bl @ W @ B, eb)"
    and f: "[e \<leftarrow> evs. bl_num e = k + 1] = W @ B"
    and W: "emitted (k + 1) ''w'' hw (py_sub prior ew) W"
    and B: "emitted (k + 1) ''b'' hb (py_sub eb ew) B"
    by auto
  from assms(4) gk have "hm_eval hb = []" by simp
  with nb have eb: "eb = ew" by (simp add: normalize_black_def)
  have "[e \<leftarrow> evs. bl_num e = k + 1 \<and> bl_player e = ''b'']
      = [e \<leftarrow> [e \<leftarrow> evs. bl_num e = k + 1]. bl_player e = ''b'']"
    by simp
  also have "\<dots> = [e \<leftarrow> W @ B. bl_player e = ''b'']"
    by (simp only: f)
  also have "\<dots> = [e \<leftarrow> W. bl_player e = ''b''] @ [e \<leftarrow> B. bl_player e = ''b'']"
    by simp
  also have "[e \<leftarrow> W. bl_player e = ''b''] = []"
    using emitted_player [OF W] by (auto simp: filter_empty_conv)
  also have "[e \<leftarrow> B. bl_player e = ''b''] = B"
    using emitted_player [OF B] by (auto simp: filter_id_conv)
  finally have "[e \<leftarrow> evs. bl_num e = k + 1 \<and> bl_player e = ''b''] = B" by simp
  with B eb gk have "emitted (k + 1) ''b'' (g ! k ! 1) (py_sub ew ew)
        [e \<leftarrow> evs. bl_num e = k + 1 \<and> bl_player e = ''b'']" by simp
  moreover from nw gk have "normalize_white flt (hm_eval (g ! k ! 0)) = Inr ew" by simp
  moreover from t1 eb have "blunder_loop flt [] (Flt (Fin 0)) 0 (take (Suc k) g) = Inr (bl @ W @ B, ew)"
    by simp
  ultimately show ?thesis by blast
qed

theorem missing_black_eval_witness:
  "find_blunder py_float
     [[\<lparr>hm_move = ''e4'', hm_eval = ''0.3'', hm_ann = [], hm_rest = [16]\<rparr>,
       \<lparr>hm_move = ''e5'', hm_eval = [], hm_ann = ''?'', hm_rest = [16]\<rparr>],
      [\<lparr>hm_move = ''Qh5'', hm_eval = ''-2.5'', hm_ann = ''??'', hm_rest = [16]\<rparr>,
       \<lparr>hm_move = ''Nc6'', hm_eval = ''1.5'', hm_ann = [], hm_rest = [16]\<rparr>]]
   = Inr [\<lparr>bl_num = 1, bl_player = ''b'', bl_move = ''e5'', bl_ann = ''?'', bl_diff = Fin 0\<rparr>,
          \<lparr>bl_num = 2, bl_player = ''w'', bl_move = ''Qh5'', bl_ann = ''??'',
            bl_diff = Fin (14 / 5)\<rparr>] \<and>
   (\<exists>bl ew.
      normalize_white py_float ''0.3'' = Inr ew \<and>
      blunder_loop py_float [] (Flt (Fin 0)) 0
        [[\<lparr>hm_move = ''e4'', hm_eval = ''0.3'', hm_ann = [], hm_rest = [16]\<rparr>,
          \<lparr>hm_move = ''e5'', hm_eval = [], hm_ann = ''?'', hm_rest = [16]\<rparr>]] = Inr (bl, ew) \<and>
      emitted 1 ''b'' \<lparr>hm_move = ''e5'', hm_eval = [], hm_ann = ''?'', hm_rest = [16]\<rparr>
        (py_sub ew ew)
        [\<lparr>bl_num = 1, bl_player = ''b'', bl_move = ''e5'', bl_ann = ''?'', bl_diff = Fin 0\<rparr>])"
proof -
  let ?g = "[[\<lparr>hm_move = ''e4'', hm_eval = ''0.3'', hm_ann = [], hm_rest = [16::int]\<rparr>,
       \<lparr>hm_move = ''e5'', hm_eval = [], hm_ann = ''?'', hm_rest = [16]\<rparr>],
      [\<lparr>hm_move = ''Qh5'', hm_eval = ''-2.5'', hm_ann = ''??'', hm_rest = [16]\<rparr>,
       \<lparr>hm_move = ''Nc6'', hm_eval = ''1.5'', hm_ann = [], hm_rest = [16]\<rparr>]]"
  let ?evs = "[\<lparr>bl_num = 1, bl_player = ''b'', bl_move = ''e5'', bl_ann = ''?'', bl_diff = Fin 0\<rparr>,
          \<lparr>bl_num = 2, bl_player = ''w'', bl_move = ''Qh5'', bl_ann = ''??'',
            bl_diff = Fin (14 / 5)\<rparr>]"
  have a: "find_blunder py_float ?g = Inr ?evs" by code_simp
  have b: "0 < length ?g" by simp
  have c: "\<forall>j\<le>0. 2 \<le> length (?g ! j)" by simp
  have d: "hm_eval (?g ! 0 ! 1) = []" by simp
  from missing_black_eval [OF a b c d] show ?thesis using a by simp
qed

section \<open>The remaining-pieces counts\<close>

lemma captures_append_rest [simp]: "captures (append_rest h v) = captures h"
  by (simp add: captures_def append_rest_def)

lemma hm_rest_append_rest [simp]: "hm_rest (append_rest h v) = hm_rest h @ [v]"
  by (simp add: append_rest_def)

lemma concat_no_rest: "\<forall>h \<in> set hs. hm_rest h = [] \<Longrightarrow> concat (map hm_rest hs) = []"
  by (induction hs) auto

lemma remaining_loop_counts:
  assumes "list_all (\<lambda>h. hm_rest h = []) others" and "fresh rest"
  shows "\<exists>r wl bl.
     remaining_loop nw nb ((w # others) # rest) = Inr r \<and>
     white_counts r = hm_rest w @ wl \<and> black_counts r = bl \<and> length wl = length rest \<and>
     sorted_wrt (\<ge>) wl \<and> sorted_wrt (\<ge>) bl \<and>
     (\<forall>v \<in> set wl. v \<le> nw \<and> nw - int (n_captures ((w # others) # rest)) \<le> v) \<and>
     (\<forall>v \<in> set bl. v \<le> nb \<and> nb - int (n_captures ((w # others) # rest)) \<le> v)"
  using assms
proof (induction rest arbitrary: w others nw nb)
  case Nil
  then show ?case
    by (auto simp: white_counts_def black_counts_def n_captures_def list_all_iff concat_no_rest
        split: list.splits)
next
  case (Cons n rest)
  define nb' where "nb' = (if captures w then nb - 1 else nb)"
  define nw' where "nw' = (case others of [b] \<Rightarrow> if captures b then nw - 1 else nw | _ \<Rightarrow> nw)"
  define move' where
    "move' = (case others of [b] \<Rightarrow> [w, append_rest b nb'] | _ \<Rightarrow> w # others)"
  define bm where "bm = (case others of [b] \<Rightarrow> [nb'] | _ \<Rightarrow> [])"
  define c where "c = int (length (filter captures (w # others)))"
  from Cons.prems(2) obtain w2 bs where n: "n = w2 # bs" and w2: "hm_rest w2 = []"
    and bs: "list_all (\<lambda>h. hm_rest h = []) bs" and rest: "fresh rest"
    by (cases n) (auto simp: fresh_def)
  have unfold: "remaining_loop nw nb ((w # others) # n # rest) =
      (case remaining_loop nw' nb' ((append_rest w2 nw' # bs) # rest) of
         Inl e \<Rightarrow> Inl e | Inr r \<Rightarrow> Inr (move' # r))"
    unfolding n nb'_def nw'_def move'_def
    by (subst remaining_loop.simps(2)) (simp add: Let_def del: remaining_loop.simps)
  from Cons.IH [OF bs rest, of nw' nb' "append_rest w2 nw'"] obtain r2 wl2 bl2 where
    r2: "remaining_loop nw' nb' ((append_rest w2 nw' # bs) # rest) = Inr r2"
    and wc: "white_counts r2 = hm_rest (append_rest w2 nw') @ wl2"
    and bc: "black_counts r2 = bl2"
    and len: "length wl2 = length rest"
    and sw: "sorted_wrt (\<ge>) wl2" and sb: "sorted_wrt (\<ge>) bl2"
    and bw: "\<forall>v \<in> set wl2. v \<le> nw' \<and> nw' - int (n_captures ((append_rest w2 nw' # bs) # rest)) \<le> v"
    and bb: "\<forall>v \<in> set bl2. v \<le> nb' \<and> nb' - int (n_captures ((append_rest w2 nw' # bs) # rest)) \<le> v"
    by blast
  have cap2: "n_captures ((append_rest w2 nw' # bs) # rest) = n_captures (n # rest)"
    by (simp add: n_captures_def n)
  have cap: "int (n_captures ((w # others) # n # rest)) = c + int (n_captures (n # rest))"
    by (simp add: n_captures_def c_def)
  have nb': "nb' \<le> nb \<and> nb - c \<le> nb'"
    by (auto simp: nb'_def c_def)
  have nw': "nw' \<le> nw \<and> nw - c \<le> nw'"
    by (auto simp: nw'_def c_def split: list.splits)
  have c0: "0 \<le> c" by (simp add: c_def)
  have hd_move: "white_counts (move' # r2) = hm_rest w @ white_counts r2"
    by (simp add: white_counts_def move'_def split: list.splits)
  have bl_move: "black_counts (move' # r2) = bm @ black_counts r2"
    using Cons.prems(1)
    by (auto simp: black_counts_def move'_def bm_def list_all_iff concat_no_rest split: list.splits)
  have bm: "set bm \<subseteq> {nb'} \<and> sorted_wrt (\<ge>) bm"
    by (auto simp: bm_def split: list.splits)
  have res: "remaining_loop nw nb ((w # others) # n # rest) = Inr (move' # r2)"
    by (simp only: unfold r2 sum.case)
  have w_eq: "white_counts (move' # r2) = hm_rest w @ (nw' # wl2)"
    by (simp add: hd_move wc w2)
  have b_eq: "black_counts (move' # r2) = bm @ bl2"
    by (simp add: bl_move bc)
  have l: "length (nw' # wl2) = length (n # rest)" by (simp add: len)
  have s1: "sorted_wrt (\<ge>) (nw' # wl2)" using sw bw by auto
  have s2: "sorted_wrt (\<ge>) (bm @ bl2)" using sb bb bm by (auto simp: sorted_wrt_append)
  have b1: "\<forall>v \<in> set (nw' # wl2). v \<le> nw \<and> nw - int (n_captures ((w # others) # n # rest)) \<le> v"
    using bw nw' c0 by (auto simp: cap cap2)
  have b2: "\<forall>v \<in> set (bm @ bl2). v \<le> nb \<and> nb - int (n_captures ((w # others) # n # rest)) \<le> v"
    using bb nb' bm c0 by (auto simp: cap cap2)
  from res w_eq b_eq l s1 s2 b1 b2 show ?case by blast
qed

lemma remaining_loop_head:
  "remaining_loop nw nb ((w # others) # rest) = Inr r \<Longrightarrow> \<exists>hs ms. r = (w # hs) # ms"
  by (subst (asm) remaining_loop.simps(2))
    (auto simp: Let_def split: list.splits sum.splits simp del: remaining_loop.simps)

lemma counts_Cons:
  "all_counts (m # g) = concat (map hm_rest m) @ all_counts g"
  "white_counts (m # g) = (case m of [] \<Rightarrow> [] | h # _ \<Rightarrow> hm_rest h) @ white_counts g"
  "black_counts (m # g) =
     (case m of [] \<Rightarrow> [] | _ # bs \<Rightarrow> concat (map hm_rest bs)) @ black_counts g"
  by (simp_all add: all_counts_def white_counts_def black_counts_def)

lemma set_all_counts: "set (all_counts g) = set (white_counts g) \<union> set (black_counts g)"
proof (induction g)
  case Nil
  show ?case by (simp add: all_counts_def white_counts_def black_counts_def)
next
  case (Cons m g)
  show ?case unfolding counts_Cons set_append Cons.IH by (cases m) auto
qed

lemma convert_gameplay_fresh: "fresh (convert_gameplay s)"
  by (auto simp: fresh_def list_all_iff convert_gameplay_def convert_half_move_def Let_def
      re_split_def re_split_from_not_Nil)

text \<open>
  C2, as the specification states it, fails on the program. The counts of the two sides
  are kept apart, so along the half-moves they interleave and can rise again: after a
  capture by White on move 1 the counts read 16, 15, 16, 15. Nothing stops a counter at
  zero: seventeen capture markers of White leave Black the count -1.
\<close>

theorem remaining_pieces_counterexample:
  "map_sum id all_counts (add_remaining_pieces
      [[\<lparr>hm_move = ''exd5'', hm_eval = [], hm_ann = [], hm_rest = []\<rparr>,
        \<lparr>hm_move = ''e5'', hm_eval = [], hm_ann = [], hm_rest = []\<rparr>],
       [\<lparr>hm_move = ''e4'', hm_eval = [], hm_ann = [], hm_rest = []\<rparr>,
        \<lparr>hm_move = ''d5'', hm_eval = [], hm_ann = [], hm_rest = []\<rparr>]])
     = Inr [16, 15, 16, 15] \<and>
   map_sum id all_counts (add_remaining_pieces (replicate 17
      [\<lparr>hm_move = ''exd5'', hm_eval = [], hm_ann = [], hm_rest = []\<rparr>,
       \<lparr>hm_move = ''e5'', hm_eval = [], hm_ann = [], hm_rest = []\<rparr>]))
     = Inr [16, 15, 16, 14, 16, 13, 16, 12, 16, 11, 16, 10, 16, 9, 16, 8, 16, 7, 16, 6, 16, 5,
            16, 4, 16, 3, 16, 2, 16, 1, 16, 0, 16, - 1]"
  by code_simp

text \<open>
  C2, amended: for every game the tokenizer can hand over (no full move empty, nothing
  appended yet, at least one full move) the tracker returns; the counts of White's
  half-moves never rise along the full moves, nor do the counts of Black's half-moves;
  every count is at most 16 and at least 16 minus the number of capture markers in the
  game; the first count, that of White's first half-move, is 16.
\<close>

theorem remaining_pieces_counts:
  assumes "g \<noteq> []" and "fresh g"
  shows "\<exists>r. add_remaining_pieces g = Inr r \<and>
           length (white_counts r) = length g \<and>
           hd (all_counts r) = 16 \<and>
           sorted_wrt (\<ge>) (white_counts r) \<and>
           sorted_wrt (\<ge>) (black_counts r) \<and>
           (\<forall>v \<in> set (all_counts r). v \<le> 16 \<and> 16 - int (n_captures g) \<le> v)"
proof -
  from assms obtain w others rest where g: "g = (w # others) # rest" and w: "hm_rest w = []"
    and others: "list_all (\<lambda>h. hm_rest h = []) others" and rest: "fresh rest"
    by (cases g; cases "hd g") (auto simp: fresh_def)
  from remaining_loop_counts [OF others rest, of 16 16 w] obtain r0 wl bl where
    r0: "remaining_loop 16 16 g = Inr r0"
    and wc: "white_counts r0 = wl" and bc: "black_counts r0 = bl"
    and len: "length wl = length rest"
    and sw: "sorted_wrt (\<ge>) wl" and sb: "sorted_wrt (\<ge>) bl"
    and bw: "\<forall>v \<in> set wl. v \<le> 16 \<and> 16 - int (n_captures g) \<le> v"
    and bb: "\<forall>v \<in> set bl. v \<le> 16 \<and> 16 - int (n_captures g) \<le> v"
    unfolding g w by auto
  from r0 obtain hs ms where r0': "r0 = (w # hs) # ms"
    unfolding g using remaining_loop_head by blast
  define r where "r = (append_rest w 16 # hs) # ms"
  have res: "add_remaining_pieces g = Inr r"
    by (simp add: add_remaining_pieces_def r0 r0' r_def)
  have wr: "white_counts r = 16 # wl"
    using wc by (simp add: white_counts_def r_def r0' w)
  have br: "black_counts r = bl"
    using bc by (simp add: black_counts_def r_def r0')
  have hd: "hd (all_counts r) = 16"
    by (simp add: all_counts_def r_def w)
  have l: "length (white_counts r) = length g" by (simp add: wr len g)
  have s1: "sorted_wrt (\<ge>) (white_counts r)" using sw bw by (auto simp: wr)
  have s2: "sorted_wrt (\<ge>) (black_counts r)" using sb by (simp add: br)
  have b: "\<forall>v \<in> set (all_counts r). v \<le> 16 \<and> 16 - int (n_captures g) \<le> v"
    using bw bb by (auto simp: set_all_counts wr br)
  from res l hd s1 s2 b show ?thesis by blast
qed

theorem remaining_pieces_counts_witness:
  "add_remaining_pieces
      [[\<lparr>hm_move = ''exd5'', hm_eval = [], hm_ann = [], hm_rest = []\<rparr>,
        \<lparr>hm_move = ''e5'', hm_eval = [], hm_ann = [], hm_rest = []\<rparr>],
       [\<lparr>hm_move = ''e4'', hm_eval = [], hm_ann = [], hm_rest = []\<rparr>,
        \<lparr>hm_move = ''dxe4'', hm_eval = [], hm_ann = [], hm_rest = []\<rparr>],
       [\<lparr>hm_move = ''Nc3'', hm_eval = [], hm_ann = [], hm_rest = []\<rparr>]]
   = Inr
      [[\<lparr>hm_move = ''exd5'', hm_eval = [], hm_ann = [], hm_rest = [16]\<rparr>,
        \<lparr>hm_move = ''e5'', hm_eval = [], hm_ann = [], hm_rest = [15]\<rparr>],
       [\<lparr>hm_move = ''e4'', hm_eval = [], hm_ann = [], hm_rest = [16]\<rparr>,
        \<lparr>hm_move = ''dxe4'', hm_eval = [], hm_ann = [], hm_rest = [15]\<rparr>],
       [\<lparr>hm_move = ''Nc3'', hm_eval = [], hm_ann = [], hm_rest = [15]\<rparr>]] \<and>
   sorted_wrt (\<ge>) [16, 16, 15 :: int] \<and> sorted_wrt (\<ge>) [15, 15 :: int] \<and>
   list_all (\<lambda>v. v \<le> 16 \<and> 16 - 2 \<le> v) [16, 15, 16, 15, 15 :: int]"
proof -
  let ?g = "[[\<lparr>hm_move = ''exd5'', hm_eval = [], hm_ann = [], hm_rest = []\<rparr>,
        \<lparr>hm_move = ''e5'', hm_eval = [], hm_ann = [], hm_rest = []\<rparr>],
       [\<lparr>hm_move = ''e4'', hm_eval = [], hm_ann = [], hm_rest = []\<rparr>,
        \<lparr>hm_move = ''dxe4'', hm_eval = [], hm_ann = [], hm_rest = []\<rparr>],
       [\<lparr>hm_move = ''Nc3'', hm_eval = [], hm_ann = [], hm_rest = []\<rparr>]]"
  let ?r = "[[\<lparr>hm_move = ''exd5'', hm_eval = [], hm_ann = [], hm_rest = [16]\<rparr>,
        \<lparr>hm_move = ''e5'', hm_eval = [], hm_ann = [], hm_rest = [15]\<rparr>],
       [\<lparr>hm_move = ''e4'', hm_eval = [], hm_ann = [], hm_rest = [16]\<rparr>,
        \<lparr>hm_move = ''dxe4'', hm_eval = [], hm_ann = [], hm_rest = [15]\<rparr>],
       [\<lparr>hm_move = ''Nc3'', hm_eval = [], hm_ann = [], hm_rest = [15]\<rparr>]]"
  have a: "?g \<noteq> []" by simp
  have b: "fresh ?g" by (simp add: fresh_def)
  have c: "add_remaining_pieces ?g = Inr ?r" by code_simp
  have w: "white_counts ?r = [16, 16, 15]" by (simp add: white_counts_def)
  have k: "black_counts ?r = [15, 15]" by (simp add: black_counts_def)
  have d: "all_counts ?r = [16, 15, 16, 15, 15]" by (simp add: all_counts_def)
  have n: "int (n_captures ?g) = 2" by (simp add: n_captures_def captures_def)
  from remaining_pieces_counts [OF a b] c w k d n show ?thesis
    unfolding list_all_iff by auto
qed

end
